theory Spec2Isabelle
  imports Main
begin

section \<open>Python strings and the two regular-expression classes\<close>

text \<open>
  The renderer of \<^verbatim>\<open>scripts/markdown_buffer.py\<close> works on Python \<^verbatim>\<open>str\<close> values. A
  string is modelled as a \<^typ>\<open>char list\<close> in which every \<^typ>\<open>char\<close> is one code point
  below 256. On that range \<^verbatim>\<open>str.lstrip()\<close>, \<^verbatim>\<open>str.strip()\<close> and the pattern class
  \<^verbatim>\<open>\s\<close> all use the same whitespace test, and \<^verbatim>\<open>\d\<close> is the ten ASCII digits.
\<close>

definition isspace :: "char \<Rightarrow> bool" where
  "isspace c = ((of_char c :: nat) \<in> {9, 10, 11, 12, 13, 28, 29, 30, 31, 32, 133, 160})"

definition isdigit :: "char \<Rightarrow> bool" where
  "isdigit c = (48 \<le> (of_char c :: nat) \<and> (of_char c :: nat) \<le> 57)"

definition lstrip :: "string \<Rightarrow> string" where
  "lstrip s = dropWhile isspace s"

definition strip :: "string \<Rightarrow> string" where
  "strip s = rev (dropWhile isspace (rev (dropWhile isspace s)))"

definition startswith :: "string \<Rightarrow> string \<Rightarrow> bool" where
  "startswith s p = (take (length p) s = p)"

text \<open>\<^verbatim>\<open>s.split('\n')\<close>: never empty, one more segment than there are line feeds.\<close>

fun split_nl :: "string \<Rightarrow> string list" where
  "split_nl [] = [[]]"
| "split_nl (c # cs) =
     (if c = CHR ''\<newline>'' then [] # split_nl cs
      else (case split_nl cs of [] \<Rightarrow> [[c]] | l # ls \<Rightarrow> (c # l) # ls))"

text \<open>\<^verbatim>\<open>int(digits)\<close> on a run of ASCII digits, and \<^verbatim>\<open>str(n)\<close> as an f-string prints it.\<close>

definition int_of_digits :: "string \<Rightarrow> int" where
  "int_of_digits ds = foldl (\<lambda>n c. 10 * n + (int (of_char c) - 48)) 0 ds"

fun str_nat :: "nat \<Rightarrow> string" where
  "str_nat n =
     (if n < 10 then [char_of (48 + n)]
      else str_nat (n div 10) @ [char_of (48 + n mod 10)])"

definition str_int :: "int \<Rightarrow> string" where
  "str_int i = (if i < 0 then CHR ''-'' # str_nat (nat (- i)) else str_nat (nat i))"

text \<open>An f-string field holding either an \<^verbatim>\<open>int\<close> or \<^verbatim>\<open>None\<close>.\<close>

definition py_str :: "int option \<Rightarrow> string" where
  "py_str n = (case n of None \<Rightarrow> ''None'' | Some i \<Rightarrow> str_int i)"

subsection \<open>The patterns of the line classifier\<close>

text \<open>
  \<^verbatim>\<open>(.+)$\<close> at the end of a pattern: the dot takes no line feed, and \<^verbatim>\<open>$\<close> holds at the
  end of the string or before one final line feed.
\<close>

definition rest_of_line :: "string \<Rightarrow> string option" where
  "rest_of_line s =
     (let x = takeWhile (\<lambda>c. c \<noteq> CHR ''\<newline>'') s;
          r = dropWhile (\<lambda>c. c \<noteq> CHR ''\<newline>'') s
      in if x \<noteq> [] \<and> (r = [] \<or> r = [CHR ''\<newline>'']) then Some x else None)"

text \<open>
  \<^verbatim>\<open>re.match(r'^#{1,6}\s', s)\<close>. A hash sign is no whitespace, so the run matched by
  \<^verbatim>\<open>#{1,6}\<close> is the whole leading run of hash signs.
\<close>

definition is_header :: "string \<Rightarrow> bool" where
  "is_header s =
     (let hs = takeWhile (\<lambda>c. c = CHR ''#'') s;
          r = dropWhile (\<lambda>c. c = CHR ''#'') s
      in 1 \<le> length hs \<and> length hs \<le> 6 \<and> r \<noteq> [] \<and> isspace (hd r))"

text \<open>\<^verbatim>\<open>re.match(r'^(#{1,6})\s(.+)$', s)\<close>: the two groups, or \<^verbatim>\<open>None\<close>.\<close>

definition match_header :: "string \<Rightarrow> (string \<times> string) option" where
  "match_header s =
     (let hs = takeWhile (\<lambda>c. c = CHR ''#'') s;
          r = dropWhile (\<lambda>c. c = CHR ''#'') s
      in if 1 \<le> length hs \<and> length hs \<le> 6 \<and> r \<noteq> [] \<and> isspace (hd r)
         then (case rest_of_line (tl r) of None \<Rightarrow> None | Some g \<Rightarrow> Some (hs, g))
         else None)"

text \<open>\<^verbatim>\<open>re.match(r'^\d+\.\s', s)\<close>. A dot is no digit, so \<^verbatim>\<open>\d+\<close> is the whole leading run.\<close>

definition is_ordered :: "string \<Rightarrow> bool" where
  "is_ordered s =
     (let ds = takeWhile isdigit s; r = dropWhile isdigit s
      in ds \<noteq> [] \<and> 2 \<le> length r \<and> hd r = CHR ''.'' \<and> isspace (hd (tl r)))"

text \<open>\<^verbatim>\<open>re.match(r'^(\d+)\.\s(.+)$', s)\<close>: the two groups, or \<^verbatim>\<open>None\<close>.\<close>

definition match_ordered :: "string \<Rightarrow> (string \<times> string) option" where
  "match_ordered s =
     (let ds = takeWhile isdigit s; r = dropWhile isdigit s
      in if ds \<noteq> [] \<and> 2 \<le> length r \<and> hd r = CHR ''.'' \<and> isspace (hd (tl r))
         then (case rest_of_line (drop 2 r) of None \<Rightarrow> None | Some g \<Rightarrow> Some (ds, g))
         else None)"

subsection \<open>The inline formatter\<close>

text \<open>
  The lazy group \<^verbatim>\<open>(.*?)\<close> followed by a literal closing marker \<open>d\<close>: the shortest run of
  characters other than the line feed after which \<open>d\<close> follows. The result is the group
  and the text behind the closing marker.
\<close>

fun lazy_until :: "string \<Rightarrow> string \<Rightarrow> (string \<times> string) option" where
  "lazy_until d [] = (if d = [] then Some ([], []) else None)"
| "lazy_until d (c # cs) =
     (if take (length d) (c # cs) = d then Some ([], drop (length d) (c # cs))
      else if c = CHR ''\<newline>'' then None
      else (case lazy_until d cs of None \<Rightarrow> None | Some (g, r) \<Rightarrow> Some (c # g, r)))"

lemma lazy_until_length:
  "lazy_until d s = Some (g, r) \<Longrightarrow> length r \<le> length s"
  by (induction s arbitrary: g r) (auto split: if_splits option.splits)

text \<open>
  \<^verbatim>\<open>re.sub\<close> of the pattern \<open>d(.*?)d\<close> by \<open>op\<close>, group, \<open>cl\<close>: the leftmost match at every
  position, the scan going on behind each match; a position with no match keeps its
  character.
\<close>

function re_sub_pair :: "string \<Rightarrow> string \<Rightarrow> string \<Rightarrow> string \<Rightarrow> string" where
  "re_sub_pair d op cl [] = []"
| "re_sub_pair d op cl (c # cs) =
     (if d \<noteq> [] \<and> take (length d) (c # cs) = d then
        (case lazy_until d (drop (length d) (c # cs)) of
           None \<Rightarrow> c # re_sub_pair d op cl cs
         | Some (g, r) \<Rightarrow> op @ g @ cl @ re_sub_pair d op cl r)
      else c # re_sub_pair d op cl cs)"
  by pat_completeness auto
termination
proof (relation "measure (\<lambda>(d, op, cl, s). length s)", goal_cases)
  case 1
  show ?case by simp
next
  case (2 d op cl c cs)
  then show ?case by simp
next
  case (3 d op cl c cs x2 g r)
  from 3 have "length r \<le> length (drop (length d) (c # cs))"
    using lazy_until_length by metis
  moreover from 3 have "0 < length d" by simp
  ultimately show ?case by (cases d) auto
next
  case (4 d op cl c cs)
  then show ?case by simp
qed

definition format_inline :: "string \<Rightarrow> string" where
  "format_inline text =
     re_sub_pair ''*'' ''<em>'' ''</em>''
       (re_sub_pair ''**'' ''<strong>'' ''</strong>'' text)"

section \<open>The renderer state\<close>

text \<open>
  \<^verbatim>\<open>list_stack\<close> holds one \<^verbatim>\<open>[list_type, indent, last_number]\<close> per open list, the
  innermost list last, as the Python list does (\<^verbatim>\<open>append\<close>, \<^verbatim>\<open>pop\<close>, \<^verbatim>\<open>[-1]\<close>).
\<close>

datatype list_type = Ol | Ul

fun tag :: "list_type \<Rightarrow> string" where
  "tag Ol = ''ol''"
| "tag Ul = ''ul''"

record frame =
  ltype :: list_type
  indent :: nat
  last_number :: "int option"

record state =
  buffer :: string
  current_line :: string
  list_stack :: "frame list"
  in_list_item :: bool

definition init :: state where
  "init = \<lparr>buffer = [], current_line = [], list_stack = [], in_list_item = False\<rparr>"

text \<open>
  A raised exception ends the run: the result of an operation is the exception, or the
  returned fragments with the state the call leaves behind.
\<close>

datatype error = AttributeError | TypeError | IndexError

type_synonym result = "error + (string list \<times> state)"

section \<open>Closing lists\<close>

definition close_list :: "state \<Rightarrow> string list \<times> state" where
  "close_list s =
     (if list_stack s \<noteq> [] then
        ([''</li>'', ''</'' @ tag (ltype (last (list_stack s))) @ ''>''],
         s\<lparr>list_stack := butlast (list_stack s)\<rparr>)
      else ([], s))"

function close_lists :: "state \<Rightarrow> string list \<times> state" where
  "close_lists s =
     (if list_stack s \<noteq> [] then
        (case close_list s of (r1, s1) \<Rightarrow>
           (case close_lists s1 of (r2, s2) \<Rightarrow> (r1 @ r2, s2)))
      else ([], s))"
  by pat_completeness auto
termination
  by (relation "measure (\<lambda>s. length (list_stack s))")
     (auto simp: close_list_def split: if_splits)

function close_lists_if_needed :: "state \<Rightarrow> nat \<Rightarrow> string list \<times> state" where
  "close_lists_if_needed s ind =
     (if list_stack s \<noteq> [] \<and> indent (last (list_stack s)) > ind then
        (case close_list s of (r1, s1) \<Rightarrow>
           (case close_lists_if_needed s1 ind of (r2, s2) \<Rightarrow> (r1 @ r2, s2)))
      else ([], s))"
  by pat_completeness auto
termination
  by (relation "measure (\<lambda>(s, ind). length (list_stack s))")
     (auto simp: close_list_def split: if_splits)

section \<open>List items\<close>

text \<open>
  \<^verbatim>\<open>_handle_list_item\<close> has three parts. The first is a loop, the loop of
  \<^verbatim>\<open>_close_lists_if_needed\<close>, and here the closing tags are kept. The second, "start a
  new list if necessary", pushes a frame and emits its opening tag.
\<close>

definition start_list :: "state \<Rightarrow> list_type \<Rightarrow> int option \<Rightarrow> nat \<Rightarrow> string list \<times> state" where
  "start_list s lt number ind =
     (if list_stack s = [] \<or> indent (last (list_stack s)) < ind
         \<or> ltype (last (list_stack s)) \<noteq> lt
      then ([if lt = Ol then ''<ol start='' @ [CHR 0x27] @ py_str number @ [CHR 0x27] @ ''>''
             else ''<'' @ tag lt @ ''>''],
            s\<lparr>list_stack := list_stack s @
                 [\<lparr>ltype = lt, indent = ind,
                   last_number = (if lt = Ol then number else None)\<rparr>]\<rparr>)
      else ([], s))"

text \<open>
  The third part opens the item. For an ordered item it reads the last number of the
  top frame; \<^verbatim>\<open>last_number + 1\<close> raises on \<^verbatim>\<open>None\<close>, and \<^verbatim>\<open>list_stack[-1]\<close> on
  an empty stack.
\<close>

definition open_item :: "state \<Rightarrow> list_type \<Rightarrow> int option \<Rightarrow> error + (string \<times> state)" where
  "open_item s lt number =
     (if lt = Ol then
        (if list_stack s = [] then Inl IndexError
         else (case last_number (last (list_stack s)) of
                 None \<Rightarrow> Inl TypeError
               | Some ln \<Rightarrow>
                   Inr (if number \<noteq> Some (ln + 1)
                        then ''<li value='' @ [CHR 0x27] @ py_str number @ [CHR 0x27] @ ''>''
                        else ''<li>'',
                        s\<lparr>list_stack := butlast (list_stack s) @
                               [(last (list_stack s))\<lparr>last_number := number\<rparr>]\<rparr>)))
      else Inr (''<li>'', s))"

definition handle_list_item ::
  "state \<Rightarrow> list_type \<Rightarrow> int option \<Rightarrow> string \<Rightarrow> nat \<Rightarrow> result" where
  "handle_list_item s lt number content ind =
     (case close_lists_if_needed s ind of (r1, s1) \<Rightarrow>
        (case start_list s1 lt number ind of (r2, s2) \<Rightarrow>
           (case open_item s2 lt number of
              Inl e \<Rightarrow> Inl e
            | Inr (li, s3) \<Rightarrow>
                Inr (r1 @ r2 @ [li, content], s3\<lparr>in_list_item := True\<rparr>))))"

section \<open>Line handlers\<close>

text \<open>
  \<^verbatim>\<open>_process_header\<close> calls \<^verbatim>\<open>_close_lists()\<close> as a statement: the stack is emptied and
  the returned tags are dropped. A failed match is \<^verbatim>\<open>None\<close>, and \<^verbatim>\<open>match.group\<close> raises.
\<close>

definition process_header :: "state \<Rightarrow> string \<Rightarrow> result" where
  "process_header s line =
     (case close_lists s of (dropped, s1) \<Rightarrow>
        (case match_header line of
           None \<Rightarrow> Inl AttributeError
         | Some (g1, g2) \<Rightarrow>
             Inr ([''<h'' @ str_nat (length g1) @ ''>'' @ format_inline g2 @
                   ''</h'' @ str_nat (length g1) @ ''>''], s1)))"

definition process_ordered_list_item :: "state \<Rightarrow> string \<Rightarrow> nat \<Rightarrow> result" where
  "process_ordered_list_item s line ind =
     (case match_ordered line of
        None \<Rightarrow> Inl AttributeError
      | Some (g1, g2) \<Rightarrow>
          handle_list_item s Ol (Some (int_of_digits g1)) (format_inline g2) ind)"

definition process_unordered_list_item :: "state \<Rightarrow> string \<Rightarrow> nat \<Rightarrow> result" where
  "process_unordered_list_item s line ind =
     handle_list_item s Ul None (format_inline (drop 2 line)) ind"

definition process_empty_line :: "state \<Rightarrow> result" where
  "process_empty_line s =
     Inr ([''<br>''], if in_list_item s then s\<lparr>in_list_item := False\<rparr> else s)"

text \<open>
  \<^verbatim>\<open>_process_text\<close> calls \<^verbatim>\<open>_close_lists_if_needed(indent)\<close> as a statement too: frames
  are popped and their closing tags dropped.
\<close>

definition process_text :: "state \<Rightarrow> string \<Rightarrow> nat \<Rightarrow> result" where
  "process_text s line ind =
     (if in_list_item s then
        Inr ([CHR '' '' # format_inline line], s\<lparr>in_list_item := False\<rparr>)
      else (case close_lists_if_needed s ind of (dropped, s1) \<Rightarrow>
              Inr ([format_inline line], s1)))"

definition process_line :: "state \<Rightarrow> string \<Rightarrow> result" where
  "process_line s line =
     (let stripped_line = lstrip line;
          ind = length line - length stripped_line
      in if is_header stripped_line then process_header s stripped_line
         else if is_ordered stripped_line then process_ordered_list_item s stripped_line ind
         else if startswith stripped_line ''- '' then
           process_unordered_list_item s stripped_line ind
         else if strip stripped_line = [] then process_empty_line s
         else process_text s stripped_line ind)"

section \<open>Chunks\<close>

text \<open>
  \<^verbatim>\<open>processed_chunks.extend(...)\<close>: the fragments of a second step are appended to those
  of the first, the second step runs in the state the first leaves, and an exception of
  either ends the run.
\<close>

definition extend :: "result \<Rightarrow> (state \<Rightarrow> result) \<Rightarrow> result" where
  "extend r f =
     (case r of
        Inl e \<Rightarrow> Inl e
      | Inr (out, s1) \<Rightarrow>
          (case f s1 of Inl e \<Rightarrow> Inl e | Inr (out', s2) \<Rightarrow> Inr (out @ out', s2)))"

text \<open>
  The loop of \<^verbatim>\<open>_process_buffer\<close> over the complete lines \<^verbatim>\<open>new_lines[:-1]\<close>.
\<close>

fun process_lines :: "state \<Rightarrow> string list \<Rightarrow> result" where
  "process_lines s [] = Inr ([], s)"
| "process_lines s (line # lines) =
     extend (process_line (s\<lparr>current_line := current_line s @ line\<rparr>) (current_line s @ line))
       (\<lambda>s1. process_lines (s1\<lparr>current_line := []\<rparr>) lines)"

definition process_buffer :: "state \<Rightarrow> result" where
  "process_buffer s =
     (let new_lines = split_nl (buffer s)
      in extend (process_lines s (butlast new_lines))
           (\<lambda>s1. let s2 = s1\<lparr>current_line := current_line s1 @ last new_lines, buffer := []\<rparr>
                 in if length (current_line s2) > 80
                    then extend (process_line s2 (current_line s2))
                           (\<lambda>s3. Inr ([], s3\<lparr>current_line := []\<rparr>))
                    else Inr ([], s2)))"

definition add_chunk :: "state \<Rightarrow> string \<Rightarrow> result" where
  "add_chunk s chunk = process_buffer (s\<lparr>buffer := buffer s @ chunk\<rparr>)"

definition flush :: "state \<Rightarrow> result" where
  "flush s =
     extend (if current_line s \<noteq> [] then process_line s (current_line s) else Inr ([], s))
       (\<lambda>s1. case close_lists s1 of (r, s2) \<Rightarrow> Inr (r, s2\<lparr>current_line := []\<rparr>))"

text \<open>
  A caller's session: the chunks go through \<^verbatim>\<open>add_chunk\<close> one after the other; the
  fragments of all calls are collected in order.
\<close>

fun add_chunks :: "state \<Rightarrow> string list \<Rightarrow> result" where
  "add_chunks s [] = Inr ([], s)"
| "add_chunks s (c # cs) = extend (add_chunk s c) (\<lambda>s1. add_chunks s1 cs)"

text \<open>The chunks, then \<^verbatim>\<open>flush()\<close>, from a fresh renderer.\<close>

definition render :: "string list \<Rightarrow> result" where
  "render cs = extend (add_chunks init cs) flush"

text \<open>The document a caller sees: the fragments joined in the order of emission.\<close>

definition document :: "result \<Rightarrow> error + string" where
  "document r = (case r of Inl e \<Rightarrow> Inl e | Inr (out, s) \<Rightarrow> Inr (concat out))"

section \<open>Tags among the fragments\<close>

definition is_list_open :: "string \<Rightarrow> bool" where
  "is_list_open f = (f = ''<ul>'' \<or> startswith f (''<ol start='' @ [CHR 0x27]))"

definition is_list_close :: "string \<Rightarrow> bool" where
  "is_list_close f = (f = ''</ul>'' \<or> f = ''</ol>'')"

definition is_li_open :: "string \<Rightarrow> bool" where
  "is_li_open f = (f = ''<li>'' \<or> startswith f (''<li value='' @ [CHR 0x27]))"

definition is_li_close :: "string \<Rightarrow> bool" where
  "is_li_close f = (f = ''</li>'')"

definition count_frags :: "(string \<Rightarrow> bool) \<Rightarrow> string list \<Rightarrow> nat" where
  "count_frags P out = length (filter P out)"

section \<open>Reachable states and the shape of the list stack\<close>

text \<open>
  \<open>frame_above a b\<close>: the frame \<open>b\<close> may sit directly on top of the frame \<open>a\<close>.
  \<open>indents_increasing\<close> and \<open>frames_distinct\<close> are the two parts of the invariant the
  specification states for the stack, bottom first.
\<close>

definition frame_above :: "frame \<Rightarrow> frame \<Rightarrow> bool" where
  "frame_above a b = (indent a < indent b \<or> (indent a = indent b \<and> ltype a \<noteq> ltype b))"

definition stack_ok :: "frame list \<Rightarrow> bool" where
  "stack_ok st = successively frame_above st"

definition indents_increasing :: "frame list \<Rightarrow> bool" where
  "indents_increasing st = sorted_wrt (\<lambda>a b. indent a < indent b) st"

definition frames_distinct :: "frame list \<Rightarrow> bool" where
  "frames_distinct st = distinct (map (\<lambda>f. (ltype f, indent f)) st)"

inductive reachable :: "state \<Rightarrow> bool" where
  fresh: "reachable init"
| chunk: "reachable s \<Longrightarrow> add_chunk s c = Inr (out, s') \<Longrightarrow> reachable s'"
| flushed: "reachable s \<Longrightarrow> flush s = Inr (out, s') \<Longrightarrow> reachable s'"

section \<open>Chunk boundaries\<close>

text \<open>
  \<open>boundaries_short cs\<close>: at the end of every chunk of \<open>cs\<close> but the last, the text
  behind the last line feed fed so far has at most 80 characters, so that no
  \<^verbatim>\<open>add_chunk\<close> call before the last dispatches a line in progress.
\<close>

definition boundaries_short :: "string list \<Rightarrow> bool" where
  "boundaries_short cs =
     list_all (\<lambda>k. length (last (split_nl (concat (take k cs)))) \<le> 80) [1..<length cs]"

section \<open>The renderer on the scenarios of the specification\<close>

text \<open>
  C1 (tag balance). The text \<^verbatim>\<open>"- a\n- b\n# T\n"\<close> as one chunk, then \<^verbatim>\<open>flush()\<close>: the
  renderer emits one list-opening tag and no list-closing tag, two \<^verbatim>\<open><li>\<close> and no
  \<^verbatim>\<open></li>\<close>. The header empties the stack and drops the closing pair, so that
  \<^verbatim>\<open>flush()\<close> has nothing left to close, and no \<^verbatim>\<open></li>\<close> stands between two items of
  one list.
\<close>

theorem tag_balance_broken:
  "render [''- a\<newline>- b\<newline># T\<newline>''] =
     Inr ([''<ul>'', ''<li>'', ''a'', ''<li>'', ''b'', ''<h1>T</h1>''],
          init\<lparr>in_list_item := True\<rparr>)
   \<and> count_frags is_list_open [''<ul>'', ''<li>'', ''a'', ''<li>'', ''b'', ''<h1>T</h1>''] = 1
   \<and> count_frags is_list_close [''<ul>'', ''<li>'', ''a'', ''<li>'', ''b'', ''<h1>T</h1>''] = 0
   \<and> count_frags is_li_open [''<ul>'', ''<li>'', ''a'', ''<li>'', ''b'', ''<h1>T</h1>''] = 2
   \<and> count_frags is_li_close [''<ul>'', ''<li>'', ''a'', ''<li>'', ''b'', ''<h1>T</h1>''] = 0"
  by code_simp

text \<open>
  C2 (totality). A header line with nothing behind its whitespace, and an ordered item
  with nothing behind its whitespace, pass the classifier and fail the handler's own
  pattern, which wants one more character: \<^verbatim>\<open>add_chunk\<close> raises on either.
\<close>

theorem add_chunk_raises:
  "add_chunk init ''# \<newline>'' = Inl AttributeError
   \<and> add_chunk init ''1. \<newline>'' = Inl AttributeError"
  by code_simp

text \<open>
  C3 (header closes the lists). After \<^verbatim>\<open>"- a\n"\<close> one list frame is open. The header
  line \<^verbatim>\<open>"# T"\<close> processed in that state returns the header fragment alone: the frame
  is popped, its \<^verbatim>\<open></li>\<close> and \<^verbatim>\<open></ul>\<close> are not part of what is returned.
\<close>

theorem header_returns_no_closing_pair:
  "add_chunk init ''- a\<newline>'' =
     Inr ([''<ul>'', ''<li>'', ''a''],
          init\<lparr>list_stack := [\<lparr>ltype = Ul, indent = 0, last_number = None\<rparr>],
               in_list_item := True\<rparr>)
   \<and> process_line
         (init\<lparr>list_stack := [\<lparr>ltype = Ul, indent = 0, last_number = None\<rparr>],
               in_list_item := True\<rparr>) ''# T'' =
     Inr ([''<h1>T</h1>''], init\<lparr>list_stack := [], in_list_item := True\<rparr>)"
  by code_simp

text \<open>
  C4 (scenario B). \<^verbatim>\<open>"- a\n- b\n"\<close> then \<^verbatim>\<open>flush()\<close>: the document has no \<^verbatim>\<open></li>\<close> behind
  the first item.
\<close>

theorem scenario_B_document:
  "document (render [''- a\<newline>- b\<newline>'']) = Inr ''<ul><li>a<li>b</li></ul>''"
  by code_simp

text \<open>
  C5 (scenario C). \<^verbatim>\<open>"1. a\n3. b\n"\<close> then \<^verbatim>\<open>flush()\<close>: the first item carries a value
  marker as well, since a new frame starts with the item's own number as its last
  number, and no \<^verbatim>\<open></li>\<close> stands behind the first item.
\<close>

theorem scenario_C_document:
  "document (render [''1. a\<newline>3. b\<newline>'']) =
     Inr (''<ol start='' @ [CHR 0x27] @ ''1'' @ [CHR 0x27] @ ''>''
          @ ''<li value='' @ [CHR 0x27] @ ''1'' @ [CHR 0x27] @ ''>a''
          @ ''<li value='' @ [CHR 0x27] @ ''3'' @ [CHR 0x27] @ ''>b</li></ol>'')"
  by code_simp

text \<open>
  C8 (unpaired markers). A line that starts with one unpaired \<^verbatim>\<open>**\<close>: the bold pattern
  finds no pair, and the italic pattern then takes the two asterisks as an empty
  emphasis.
\<close>

theorem unpaired_bold_marker_consumed:
  "format_inline ''**bold'' = ''<em></em>bold''"
  by code_simp

text \<open>
  C9 (flush idempotence). After \<^verbatim>\<open>add_chunk("# ")\<close> the line in progress is a header
  with nothing behind its whitespace. \<^verbatim>\<open>flush()\<close> raises on it in \<^verbatim>\<open>_process_header\<close>,
  before the statement that clears the line in progress is reached; the list stack was
  empty, so the renderer is left in the same state, and a second \<^verbatim>\<open>flush()\<close> is the same
  call: it raises again and returns no sequence, empty or not.
\<close>

theorem flush_raises_twice:
  "add_chunks init [''# ''] = Inr ([], init\<lparr>current_line := ''# ''\<rparr>)
   \<and> close_lists (init\<lparr>current_line := ''# ''\<rparr>) = ([], init\<lparr>current_line := ''# ''\<rparr>)
   \<and> flush (init\<lparr>current_line := ''# ''\<rparr>) = Inl AttributeError"
  by code_simp

section \<open>Basic properties of the operations\<close>

declare close_lists.simps [simp del] close_lists_if_needed.simps [simp del]

text \<open>
  No handler reads or writes the buffer or the line in progress: replacing both in the
  state commutes with every operation below \<^verbatim>\<open>_process_line\<close>.
\<close>

definition retext :: "string \<Rightarrow> string \<Rightarrow> state \<Rightarrow> state" where
  "retext b c s = s\<lparr>buffer := b, current_line := c\<rparr>"

lemma retext_fields [simp]:
  "list_stack (retext b c s) = list_stack s"
  "in_list_item (retext b c s) = in_list_item s"
  "buffer (retext b c s) = b"
  "current_line (retext b c s) = c"
  "retext b c (s\<lparr>list_stack := L\<rparr>) = (retext b c s)\<lparr>list_stack := L\<rparr>"
  "retext b c (s\<lparr>in_list_item := I\<rparr>) = (retext b c s)\<lparr>in_list_item := I\<rparr>"
  by (simp_all add: retext_def)

lemma close_list_retext:
  "close_list (retext b c s) = map_prod id (retext b c) (close_list s)"
  by (simp add: close_list_def)

lemma close_lists_retext:
  "close_lists (retext b c s) = map_prod id (retext b c) (close_lists s)"
proof (induction s rule: close_lists.induct)
  case (1 s)
  show ?case
  proof (cases "list_stack s = []")
    case True
    then show ?thesis by (simp add: close_lists.simps [of s] close_lists.simps [of "retext b c s"])
  next
    case False
    obtain r1 s1 where c: "close_list s = (r1, s1)" by (cases "close_list s")
    from 1 [OF False c [symmetric]] have ih: "close_lists (retext b c s1) = map_prod id (retext b c) (close_lists s1)" .
    show ?thesis
      using False c ih
      by (simp add: close_lists.simps [of s] close_lists.simps [of "retext b c s"] close_list_retext split: prod.splits)
  qed
qed

lemma close_lists_if_needed_retext:
  "close_lists_if_needed (retext b c s) ind = map_prod id (retext b c) (close_lists_if_needed s ind)"
proof (induction s ind rule: close_lists_if_needed.induct)
  case (1 s ind)
  show ?case
  proof (cases "list_stack s \<noteq> [] \<and> indent (last (list_stack s)) > ind")
    case False
    have a: "close_lists_if_needed s ind = ([], s)"
      using False by (subst close_lists_if_needed.simps) auto
    have b: "close_lists_if_needed (retext b c s) ind = ([], retext b c s)"
      using False by (subst close_lists_if_needed.simps) auto
    show ?thesis by (simp add: a b)
  next
    case True
    obtain r1 s1 where c: "close_list s = (r1, s1)" by (cases "close_list s")
    from True have t1: "list_stack s \<noteq> []" and t2: "ind < indent (last (list_stack s))" by auto
    from 1 [OF True c [symmetric]] have ih: "close_lists_if_needed (retext b c s1) ind = map_prod id (retext b c) (close_lists_if_needed s1 ind)" .
    have a: "close_lists_if_needed s ind = (case close_lists_if_needed s1 ind of (r2, s2) \<Rightarrow> (r1 @ r2, s2))"
      using True c by (subst close_lists_if_needed.simps) simp
    have b: "close_lists_if_needed (retext b c s) ind = (case close_lists_if_needed (retext b c s1) ind of (r2, s2) \<Rightarrow> (r1 @ r2, s2))"
      using True c by (subst close_lists_if_needed.simps) (simp add: close_list_retext)
    show ?thesis
      by (simp add: a b ih split: prod.splits)
  qed
qed

lemma start_list_retext:
  "start_list (retext b c s) lt n ind = map_prod id (retext b c) (start_list s lt n ind)"
  by (simp add: start_list_def)

lemma open_item_retext:
  "open_item (retext b c s) lt n = map_sum id (map_prod id (retext b c)) (open_item s lt n)"
  by (simp add: open_item_def split: option.splits)

lemma handle_list_item_retext:
  "handle_list_item (retext b c s) lt n content ind =
     map_sum id (map_prod id (retext b c)) (handle_list_item s lt n content ind)"
proof -
  obtain r1 s1 where a: "close_lists_if_needed s ind = (r1, s1)" by (cases "close_lists_if_needed s ind")
  obtain r2 s2 where b: "start_list s1 lt n ind = (r2, s2)" by (cases "start_list s1 lt n ind")
  show ?thesis
    by (cases "open_item s2 lt n")
       (auto simp: handle_list_item_def close_lists_if_needed_retext start_list_retext open_item_retext a b)
qed

lemma process_header_retext:
  "process_header (retext b c s) l = map_sum id (map_prod id (retext b c)) (process_header s l)"
  by (cases "close_lists s") (auto simp: process_header_def close_lists_retext split: option.splits)

lemma process_text_retext:
  "process_text (retext b c s) l ind = map_sum id (map_prod id (retext b c)) (process_text s l ind)"
  by (cases "close_lists_if_needed s ind") (auto simp: process_text_def close_lists_if_needed_retext)

lemma process_empty_line_retext:
  "process_empty_line (retext b c s) = map_sum id (map_prod id (retext b c)) (process_empty_line s)"
  by (simp add: process_empty_line_def)

lemma process_ordered_retext:
  "process_ordered_list_item (retext b c s) l ind = map_sum id (map_prod id (retext b c)) (process_ordered_list_item s l ind)"
  by (simp add: process_ordered_list_item_def handle_list_item_retext split: option.splits)

lemma process_unordered_retext:
  "process_unordered_list_item (retext b c s) l ind = map_sum id (map_prod id (retext b c)) (process_unordered_list_item s l ind)"
  by (simp add: process_unordered_list_item_def handle_list_item_retext)

lemma process_line_retext:
  "process_line (retext b c s) l = map_sum id (map_prod id (retext b c)) (process_line s l)"
  by (simp add: process_line_def Let_def process_header_retext process_ordered_retext
      process_unordered_retext process_empty_line_retext process_text_retext)

lemma extend_simps [simp]:
  "extend (Inl e) f = Inl e"
  "extend (Inr (out, s)) f = (case f s of Inl e \<Rightarrow> Inl e | Inr (out', s2) \<Rightarrow> Inr (out @ out', s2))"
  by (simp_all add: extend_def)

lemma extend_Inr_iff:
  "extend r f = Inr (out, s') \<longleftrightarrow>
     (\<exists>o1 s1 o2. r = Inr (o1, s1) \<and> f s1 = Inr (o2, s') \<and> out = o1 @ o2)"
  by (cases r) (auto split: sum.splits)

lemma extend_assoc:
  "extend (extend r f) g = extend r (\<lambda>s. extend (f s) g)"
  by (cases r) (auto split: sum.splits)

lemma extend_unit [simp]: "extend r (\<lambda>s. Inr ([], s)) = r"
  by (cases r) auto

lemma retext_self: "retext (buffer s) (current_line s) s = s"
  by (simp add: retext_def)




lemma close_lists_stack:
  "close_lists s = (r, s') \<Longrightarrow> list_stack s' = []"
proof (induction s arbitrary: r s' rule: close_lists.induct)
  case (1 s)
  show ?case
  proof (cases "list_stack s = []")
    case True
    with 1(2) show ?thesis by (simp add: close_lists.simps [of s])
  next
    case False
    obtain r1 s1 where c: "close_list s = (r1, s1)" by (cases "close_list s")
    obtain r2 s2 where d: "close_lists s1 = (r2, s2)" by (cases "close_lists s1")
    from 1(2) False c d have "s' = s2" by (simp add: close_lists.simps [of s])
    with 1(1) [OF False c [symmetric] d] show ?thesis by simp
  qed
qed

lemma close_lists_text:
  assumes "close_lists s = (r, s')"
  shows "buffer s' = buffer s" and "current_line s' = current_line s"
proof -
  have "close_lists s = map_prod id (retext (buffer s) (current_line s)) (close_lists s)"
    using close_lists_retext [of "buffer s" "current_line s" s] by (simp add: retext_self)
  with assms have "s' = retext (buffer s) (current_line s) s'" by simp
  then have "buffer s' = buffer (retext (buffer s) (current_line s) s')"
    and "current_line s' = current_line (retext (buffer s) (current_line s) s')" by simp_all
  then show "buffer s' = buffer s" and "current_line s' = current_line s" by simp_all
qed

text \<open>
  Where a first \<^verbatim>\<open>flush()\<close> returns, the second finds no line in progress and no open
  list and returns the empty sequence. Nothing is said here of a first call that raises.
\<close>

lemma flush_twice:
  assumes "flush s = Inr (out, s')"
  shows "flush s' = Inr ([], s')"
proof -
  define r1 where "r1 = (if current_line s \<noteq> [] then process_line s (current_line s) else Inr ([], s))"
  from assms have a: "extend r1 (\<lambda>s1. case close_lists s1 of (r, s2) \<Rightarrow> Inr (r, s2\<lparr>current_line := []\<rparr>)) = Inr (out, s')"
    by (simp add: flush_def r1_def)
  then obtain o1 s1 where b: "r1 = Inr (o1, s1)" by (cases r1) auto
  obtain r s2 where c: "close_lists s1 = (r, s2)" by (cases "close_lists s1")
  from a b c have d: "s' = s2\<lparr>current_line := []\<rparr>" by simp
  from close_lists_stack [OF c] d have e: "list_stack s' = []" by simp
  from d have f: "current_line s' = []" by simp
  from e have g: "close_lists s' = ([], s')" by (simp add: close_lists.simps [of s'])
  have "s'\<lparr>current_line := []\<rparr> = s'" using f by simp
  then show ?thesis by (simp add: flush_def f g)
qed

section \<open>The stack invariant\<close>

lemma stack_ok_snoc:
  "stack_ok (st @ [f]) \<longleftrightarrow> stack_ok st \<and> (st \<noteq> [] \<longrightarrow> frame_above (last st) f)"
  by (auto simp: stack_ok_def successively_append_iff)

lemma stack_ok_small [simp]: "stack_ok []" "stack_ok [f]"
  by (simp_all add: stack_ok_def)

lemma stack_ok_butlast: "stack_ok st \<Longrightarrow> stack_ok (butlast st)"
proof (cases "st = []")
  case True
  then show ?thesis by (simp add: stack_ok_def)
next
  case False
  assume "stack_ok st"
  with False have "stack_ok (butlast st @ [last st])" by simp
  then show ?thesis by (simp only: stack_ok_snoc)
qed

lemma close_list_ok:
  "close_list s = (r, s') \<Longrightarrow> stack_ok (list_stack s) \<Longrightarrow> stack_ok (list_stack s')"
  by (auto simp: close_list_def stack_ok_butlast split: if_splits)

lemma close_lists_if_needed_ok:
  "close_lists_if_needed s ind = (r, s') \<Longrightarrow> stack_ok (list_stack s) \<Longrightarrow>
     stack_ok (list_stack s') \<and> (list_stack s' = [] \<or> indent (last (list_stack s')) \<le> ind)"
proof (induction s ind arbitrary: r s' rule: close_lists_if_needed.induct)
  case (1 s ind)
  show ?case
  proof (cases "list_stack s \<noteq> [] \<and> indent (last (list_stack s)) > ind")
    case False
    with 1(2) have "s' = s" by (simp add: close_lists_if_needed.simps [of s])
    with False 1(3) show ?thesis by auto
  next
    case True
    obtain r1 s1 where c: "close_list s = (r1, s1)" by (cases "close_list s")
    obtain r2 s2 where d: "close_lists_if_needed s1 ind = (r2, s2)"
      by (cases "close_lists_if_needed s1 ind")
    from 1(2) True c d have e: "s' = s2" by (simp add: close_lists_if_needed.simps [of s])
    from close_list_ok [OF c 1(3)] have "stack_ok (list_stack s1)" .
    from 1(1) [OF True c [symmetric] d this] e show ?thesis by simp
  qed
qed

lemma start_list_ok:
  assumes "start_list s lt n ind = (r, s')" and "stack_ok (list_stack s)"
    and "list_stack s = [] \<or> indent (last (list_stack s)) \<le> ind"
  shows "stack_ok (list_stack s')"
  using assms
  by (auto simp: start_list_def stack_ok_snoc frame_above_def split: if_splits)

lemma stack_ok_relabel:
  assumes "stack_ok st" and "st \<noteq> []"
  shows "stack_ok (butlast st @ [(last st)\<lparr>last_number := n\<rparr>])"
proof -
  from assms have "stack_ok (butlast st @ [last st])" by simp
  then show ?thesis by (simp add: stack_ok_snoc frame_above_def)
qed

lemma open_item_ok:
  "open_item s lt n = Inr (li, s') \<Longrightarrow> stack_ok (list_stack s) \<Longrightarrow> stack_ok (list_stack s')"
  by (auto simp: open_item_def stack_ok_relabel split: if_splits option.splits)

lemma handle_list_item_ok:
  assumes "handle_list_item s lt n content ind = Inr (out, s')" and "stack_ok (list_stack s)"
  shows "stack_ok (list_stack s')"
proof -
  obtain r1 s1 where a: "close_lists_if_needed s ind = (r1, s1)"
    by (cases "close_lists_if_needed s ind")
  obtain r2 s2 where b: "start_list s1 lt n ind = (r2, s2)" by (cases "start_list s1 lt n ind")
  from assms(1) a b obtain li s3 where c: "open_item s2 lt n = Inr (li, s3)"
    and d: "s' = s3\<lparr>in_list_item := True\<rparr>"
    by (auto simp: handle_list_item_def split: sum.splits)
  from close_lists_if_needed_ok [OF a assms(2)]
  have "stack_ok (list_stack s1)" and "list_stack s1 = [] \<or> indent (last (list_stack s1)) \<le> ind"
    by simp_all
  from start_list_ok [OF b this] have "stack_ok (list_stack s2)" .
  from open_item_ok [OF c this] d show ?thesis by simp
qed

lemma process_line_ok:
  assumes "process_line s l = Inr (out, s')" and "stack_ok (list_stack s)"
  shows "stack_ok (list_stack s')"
proof -
  let ?sl = "lstrip l"
  let ?ind = "length l - length ?sl"
  consider (h) "is_header ?sl"
    | (o) "\<not> is_header ?sl" "is_ordered ?sl"
    | (u) "\<not> is_header ?sl" "\<not> is_ordered ?sl" "startswith ?sl ''- ''"
    | (e) "\<not> is_header ?sl" "\<not> is_ordered ?sl" "\<not> startswith ?sl ''- ''" "strip ?sl = []"
    | (t) "\<not> is_header ?sl" "\<not> is_ordered ?sl" "\<not> startswith ?sl ''- ''" "strip ?sl \<noteq> []"
    by blast
  then show ?thesis
  proof cases
    case h
    with assms(1) have a: "process_header s ?sl = Inr (out, s')"
      by (simp add: process_line_def Let_def)
    obtain d s1 where b: "close_lists s = (d, s1)" by (cases "close_lists s")
    from a b have "s' = s1" by (auto simp: process_header_def split: option.splits)
    with close_lists_stack [OF b] show ?thesis by (simp add: stack_ok_def)
  next
    case o
    with assms(1) have "process_ordered_list_item s ?sl ?ind = Inr (out, s')"
      by (simp add: process_line_def Let_def)
    then obtain g1 g2 where
      "handle_list_item s Ol (Some (int_of_digits g1)) (format_inline g2) ?ind = Inr (out, s')"
      by (auto simp: process_ordered_list_item_def split: option.splits)
    from handle_list_item_ok [OF this assms(2)] show ?thesis .
  next
    case u
    with assms(1) have "handle_list_item s Ul None (format_inline (drop 2 ?sl)) ?ind = Inr (out, s')"
      by (simp add: process_line_def Let_def process_unordered_list_item_def)
    from handle_list_item_ok [OF this assms(2)] show ?thesis .
  next
    case e
    with assms(1) have "process_empty_line s = Inr (out, s')"
      by (simp add: process_line_def Let_def)
    with assms(2) show ?thesis by (auto simp: process_empty_line_def split: if_splits)
  next
    case t
    with assms(1) have a: "process_text s ?sl ?ind = Inr (out, s')"
      by (simp add: process_line_def Let_def)
    show ?thesis
    proof (cases "in_list_item s")
      case True
      with a assms(2) show ?thesis by (auto simp: process_text_def)
    next
      case False
      obtain d s1 where b: "close_lists_if_needed s ?ind = (d, s1)"
        by (cases "close_lists_if_needed s ?ind")
      from a b False have "s' = s1" by (simp add: process_text_def)
      with close_lists_if_needed_ok [OF b assms(2)] show ?thesis by simp
    qed
  qed
qed

lemma process_lines_ok:
  "process_lines s ls = Inr (out, s') \<Longrightarrow> stack_ok (list_stack s) \<Longrightarrow> stack_ok (list_stack s')"
proof (induction ls arbitrary: s out s')
  case Nil
  then show ?case by simp
next
  case (Cons l ls)
  let ?s1 = "s\<lparr>current_line := current_line s @ l\<rparr>"
  from Cons.prems(1) obtain o1 s2 o2 where
    a: "process_line ?s1 (current_line s @ l) = Inr (o1, s2)" and
    b: "process_lines (s2\<lparr>current_line := []\<rparr>) ls = Inr (o2, s')"
    by (auto simp: extend_Inr_iff)
  from Cons.prems(2) have "stack_ok (list_stack ?s1)" by simp
  from process_line_ok [OF a this] have "stack_ok (list_stack (s2\<lparr>current_line := []\<rparr>))" by simp
  from Cons.IH [OF b this] show ?case .
qed

lemma add_chunk_ok:
  assumes "add_chunk s c = Inr (out, s')" and "stack_ok (list_stack s)"
  shows "stack_ok (list_stack s')"
proof -
  let ?t = "s\<lparr>buffer := buffer s @ c\<rparr>"
  let ?nl = "split_nl (buffer ?t)"
  from assms(1) obtain o1 s1 o2 where
    a: "process_lines ?t (butlast ?nl) = Inr (o1, s1)" and
    b: "(let s2 = s1\<lparr>current_line := current_line s1 @ last ?nl, buffer := []\<rparr>
         in if length (current_line s2) > 80
            then extend (process_line s2 (current_line s2)) (\<lambda>s3. Inr ([], s3\<lparr>current_line := []\<rparr>))
            else Inr ([], s2)) = Inr (o2, s')"
    unfolding add_chunk_def process_buffer_def Let_def extend_Inr_iff by blast
  from assms(2) have "stack_ok (list_stack ?t)" by simp
  from process_lines_ok [OF a this] have c: "stack_ok (list_stack s1)" .
  let ?s2 = "s1\<lparr>current_line := current_line s1 @ last ?nl, buffer := []\<rparr>"
  show ?thesis
  proof (cases "length (current_line ?s2) > 80")
    case False
    with b have "s' = ?s2" by (simp add: Let_def)
    with c show ?thesis by simp
  next
    case True
    with b obtain o3 s3 where d: "process_line ?s2 (current_line ?s2) = Inr (o3, s3)"
      and e: "s' = s3\<lparr>current_line := []\<rparr>"
      by (auto simp: Let_def extend_Inr_iff)
    from c have "stack_ok (list_stack ?s2)" by simp
    from process_line_ok [OF d this] e show ?thesis by simp
  qed
qed

lemma flush_stack: "flush s = Inr (out, s') \<Longrightarrow> list_stack s' = []"
proof -
  assume a: "flush s = Inr (out, s')"
  define r1 where "r1 = (if current_line s \<noteq> [] then process_line s (current_line s) else Inr ([], s))"
  from a have b: "extend r1 (\<lambda>s1. case close_lists s1 of (r, s2) \<Rightarrow> Inr (r, s2\<lparr>current_line := []\<rparr>)) = Inr (out, s')"
    by (simp add: flush_def r1_def)
  then obtain o1 s1 where c: "r1 = Inr (o1, s1)" by (cases r1) auto
  obtain r s2 where d: "close_lists s1 = (r, s2)" by (cases "close_lists s1")
  from b c d have "s' = s2\<lparr>current_line := []\<rparr>" by simp
  with close_lists_stack [OF d] show ?thesis by simp
qed

text \<open>
  C7 (stack invariant), as the code has it. In every reachable state each frame of the
  stack has, compared with the frame below it, a larger indent, or the same indent and
  the other kind. Indents never decrease from bottom to top; they need not increase,
  since a change of kind at the same indent pushes a new frame.
\<close>

theorem reachable_stack_ok: "reachable s \<Longrightarrow> stack_ok (list_stack s)"
proof (induction rule: reachable.induct)
  case fresh
  show ?case by (simp add: init_def stack_ok_def)
next
  case (chunk s c out s')
  from add_chunk_ok [OF chunk.hyps(2) chunk.IH] show ?case .
next
  case (flushed s out s')
  from flush_stack [OF flushed.hyps(2)] show ?case by (simp add: stack_ok_def)
qed


lemma reachable_three_lists:
  "reachable
     (init\<lparr>list_stack := [\<lparr>ltype = Ul, indent = 0, last_number = None\<rparr>,
                            \<lparr>ltype = Ol, indent = 0, last_number = Some 1\<rparr>,
                            \<lparr>ltype = Ul, indent = 0, last_number = None\<rparr>],
          in_list_item := True\<rparr>)"
proof -
  let ?S = "init\<lparr>list_stack := [\<lparr>ltype = Ul, indent = 0, last_number = None\<rparr>,
                            \<lparr>ltype = Ol, indent = 0, last_number = Some 1\<rparr>,
                            \<lparr>ltype = Ul, indent = 0, last_number = None\<rparr>],
          in_list_item := True\<rparr>"
  have "map_sum id snd (add_chunk init ''- a\<newline>1. b\<newline>- c\<newline>'') = Inr ?S"
    by code_simp
  then obtain out where "add_chunk init ''- a\<newline>1. b\<newline>- c\<newline>'' = Inr (out, ?S)"
    by (cases "add_chunk init ''- a\<newline>1. b\<newline>- c\<newline>''") auto
  from reachable.chunk [OF reachable.fresh this] show ?thesis .
qed

text \<open>
  C7, as stated, fails in the state reached by \<^verbatim>\<open>"- a\n1. b\n- c\n"\<close>: three frames
  of indent 0 are open, two of them unordered.
\<close>

theorem stack_invariant_counterexample:
  "reachable
     (init\<lparr>list_stack := [\<lparr>ltype = Ul, indent = 0, last_number = None\<rparr>,
                            \<lparr>ltype = Ol, indent = 0, last_number = Some 1\<rparr>,
                            \<lparr>ltype = Ul, indent = 0, last_number = None\<rparr>],
          in_list_item := True\<rparr>)
   \<and> \<not> indents_increasing
         [\<lparr>ltype = Ul, indent = 0, last_number = None\<rparr>,
          \<lparr>ltype = Ol, indent = 0, last_number = Some 1\<rparr>,
          \<lparr>ltype = Ul, indent = 0, last_number = None\<rparr>]
   \<and> \<not> frames_distinct
         [\<lparr>ltype = Ul, indent = 0, last_number = None\<rparr>,
          \<lparr>ltype = Ol, indent = 0, last_number = Some 1\<rparr>,
          \<lparr>ltype = Ul, indent = 0, last_number = None\<rparr>]"
  using reachable_three_lists by (simp add: indents_increasing_def frames_distinct_def)

theorem reachable_stack_ok_witness:
  "reachable
     (init\<lparr>list_stack := [\<lparr>ltype = Ul, indent = 0, last_number = None\<rparr>,
                            \<lparr>ltype = Ol, indent = 0, last_number = Some 1\<rparr>,
                            \<lparr>ltype = Ul, indent = 0, last_number = None\<rparr>],
          in_list_item := True\<rparr>)
   \<and> stack_ok
         [\<lparr>ltype = Ul, indent = 0, last_number = None\<rparr>,
          \<lparr>ltype = Ol, indent = 0, last_number = Some 1\<rparr>,
          \<lparr>ltype = Ul, indent = 0, last_number = None\<rparr>]"
  using reachable_three_lists reachable_stack_ok [OF reachable_three_lists] by simp

section \<open>Chunk-boundary invariance\<close>

lemma split_nl_nonempty [simp]: "split_nl s \<noteq> []"
  by (induction s) (auto split: list.splits)

lemma split_nl_Cons:
  "c \<noteq> CHR ''\<newline>'' \<Longrightarrow> split_nl (c # cs) = (c # hd (split_nl cs)) # tl (split_nl cs)"
  using split_nl_nonempty [of cs] by (cases "split_nl cs") auto

lemma split_nl_append:
  "split_nl (a @ b) =
     butlast (split_nl a) @ [last (split_nl a) @ hd (split_nl b)] @ tl (split_nl b)"
proof (induction a)
  case Nil
  show ?case by simp
next
  case (Cons c a)
  show ?case
  proof (cases "c = CHR ''\<newline>''")
    case True
    with Cons show ?thesis by simp
  next
    case False
    obtain x xs where A: "split_nl a = x # xs"
      using split_nl_nonempty [of a] by (cases "split_nl a") auto
    have "split_nl ((c # a) @ b) = (c # hd (split_nl (a @ b))) # tl (split_nl (a @ b))"
      using False by (simp add: split_nl_Cons del: split_nl.simps)
    also have "\<dots> = butlast ((c # x) # xs) @ [last ((c # x) # xs) @ hd (split_nl b)] @ tl (split_nl b)"
      unfolding Cons by (cases xs) (simp_all add: A)
    also have "(c # x) # xs = split_nl (c # a)"
      using False A by (simp add: split_nl_Cons del: split_nl.simps)
    finally show ?thesis .
  qed
qed

lemma extend_left_unit [simp]: "extend (Inr ([], s)) f = f s"
  by (cases "f s") auto

lemma extend_map:
  "extend (map_sum id (map_prod id g) r) f = extend r (\<lambda>s. f (g s))"
  by (cases r) auto

lemma extend_cong_result:
  "(\<And>out s. r = Inr (out, s) \<Longrightarrow> f s = g s) \<Longrightarrow> extend r f = extend r g"
  by (cases r) auto

lemma process_lines_append:
  "process_lines s (xs @ ys) = extend (process_lines s xs) (\<lambda>s1. process_lines s1 ys)"
  by (induction xs arbitrary: s) (simp_all add: extend_assoc del: extend_simps)

lemma process_lines_buffer:
  "process_lines (s\<lparr>buffer := b\<rparr>) ls =
     extend (process_lines s ls) (\<lambda>t. Inr ([], t\<lparr>buffer := b\<rparr>))"
proof (induction ls arbitrary: s)
  case Nil
  show ?case by simp
next
  case (Cons l ls)
  let ?x = "current_line s @ l"
  have a: "(s\<lparr>buffer := b\<rparr>)\<lparr>current_line := ?x\<rparr> = retext b ?x (s\<lparr>current_line := ?x\<rparr>)"
    by (simp add: retext_def)
  have b: "\<And>t. (retext b ?x t)\<lparr>current_line := []\<rparr> = (t\<lparr>current_line := []\<rparr>)\<lparr>buffer := b\<rparr>"
    by (simp add: retext_def)
  have "process_lines (s\<lparr>buffer := b\<rparr>) (l # ls) =
        extend (process_line (s\<lparr>current_line := ?x\<rparr>) ?x)
          (\<lambda>t. process_lines ((t\<lparr>current_line := []\<rparr>)\<lparr>buffer := b\<rparr>) ls)"
    by (simp add: a process_line_retext extend_map b del: extend_simps)
  also have "\<dots> = extend (process_line (s\<lparr>current_line := ?x\<rparr>) ?x)
          (\<lambda>t. extend (process_lines (t\<lparr>current_line := []\<rparr>) ls) (\<lambda>t. Inr ([], t\<lparr>buffer := b\<rparr>)))"
    by (simp only: Cons.IH)
  also have "\<dots> = extend (process_lines s (l # ls)) (\<lambda>t. Inr ([], t\<lparr>buffer := b\<rparr>))"
    by (simp add: extend_assoc del: extend_simps)
  finally show ?case .
qed


text \<open>
  \<^verbatim>\<open>_process_buffer\<close> in two halves: \<open>feed\<close> dispatches the complete lines and keeps the
  last segment as the line in progress; \<open>force\<close> is the dispatch of a line in progress
  of more than 80 characters.
\<close>

definition feed :: "state \<Rightarrow> string \<Rightarrow> result" where
  "feed s t =
     extend (process_lines s (butlast (split_nl t)))
       (\<lambda>s1. Inr ([], s1\<lparr>current_line := current_line s1 @ last (split_nl t), buffer := []\<rparr>))"

definition force :: "state \<Rightarrow> result" where
  "force s =
     (if length (current_line s) > 80
      then extend (process_line s (current_line s)) (\<lambda>s3. Inr ([], s3\<lparr>current_line := []\<rparr>))
      else Inr ([], s))"

lemma add_chunk_feed:
  assumes "buffer s = []"
  shows "add_chunk s t = extend (feed s t) force"
proof -
  have "add_chunk s t =
        extend (process_lines (s\<lparr>buffer := t\<rparr>) (butlast (split_nl t)))
          (\<lambda>s1. force (s1\<lparr>current_line := current_line s1 @ last (split_nl t), buffer := []\<rparr>))"
    using assms by (simp add: add_chunk_def process_buffer_def force_def Let_def)
  also have "\<dots> = extend (process_lines s (butlast (split_nl t)))
          (\<lambda>s1. force (s1\<lparr>current_line := current_line s1 @ last (split_nl t), buffer := []\<rparr>))"
    by (simp add: process_lines_buffer extend_assoc del: extend_simps)
  also have "\<dots> = extend (feed s t) force"
    by (simp add: feed_def extend_assoc del: extend_simps)
  finally show ?thesis .
qed

lemma process_lines_current:
  "process_lines (s\<lparr>current_line := current_line s @ x\<rparr>) (l # ls) = process_lines s ((x @ l) # ls)"
  by simp

lemma feed_append: "feed s (a @ b) = extend (feed s a) (\<lambda>s1. feed s1 b)"
proof -
  obtain hb tb where B: "split_nl b = hb # tb"
    using split_nl_nonempty [of b] by (cases "split_nl b") auto
  show ?thesis
  proof (cases "tb = []")
    case True
    have "split_nl (a @ b) = butlast (split_nl a) @ [last (split_nl a) @ hb]"
      by (simp add: split_nl_append B True)
    then show ?thesis
      by (simp add: feed_def B True extend_assoc del: extend_simps)
  next
    case False
    let ?rest = "butlast tb"
    let ?fin = "\<lambda>s1. Inr ([], s1\<lparr>current_line := current_line s1 @ last tb, buffer := []\<rparr>) :: result"
    have sp: "split_nl (a @ b) = butlast (split_nl a) @ [last (split_nl a) @ hb] @ tb"
      by (simp add: split_nl_append B)
    have bl: "butlast (split_nl (a @ b)) = butlast (split_nl a) @ (last (split_nl a) @ hb) # ?rest"
      using False by (simp add: sp butlast_append)
    have la: "last (split_nl (a @ b)) = last tb"
      using False by (simp add: sp)
    have inner: "extend (process_lines (s1\<lparr>current_line := current_line s1 @ last (split_nl a), buffer := []\<rparr>) (hb # ?rest)) ?fin
          = extend (process_lines s1 ((last (split_nl a) @ hb) # ?rest)) ?fin" for s1
    proof -
      have "s1\<lparr>current_line := current_line s1 @ last (split_nl a), buffer := []\<rparr>
            = (s1\<lparr>current_line := current_line s1 @ last (split_nl a)\<rparr>)\<lparr>buffer := []\<rparr>"
        by simp
      then have "process_lines (s1\<lparr>current_line := current_line s1 @ last (split_nl a), buffer := []\<rparr>) (hb # ?rest)
          = extend (process_lines s1 ((last (split_nl a) @ hb) # ?rest)) (\<lambda>t. Inr ([], t\<lparr>buffer := []\<rparr>))"
        by (simp only: process_lines_buffer process_lines_current)
      then show ?thesis by (simp add: extend_assoc del: extend_simps process_lines.simps)
    qed
    have "feed s (a @ b) =
          extend (process_lines s (butlast (split_nl a)))
            (\<lambda>s1. extend (process_lines s1 ((last (split_nl a) @ hb) # ?rest)) ?fin)"
      by (simp add: feed_def bl la process_lines_append extend_assoc del: extend_simps process_lines.simps)
    also have "\<dots> = extend (process_lines s (butlast (split_nl a)))
            (\<lambda>s1. extend (process_lines (s1\<lparr>current_line := current_line s1 @ last (split_nl a), buffer := []\<rparr>) (hb # ?rest)) ?fin)"
      by (simp only: inner)
    also have "\<dots> = extend (feed s a) (\<lambda>s1. feed s1 b)"
      using False by (simp add: feed_def B extend_assoc del: extend_simps process_lines.simps)
    finally show ?thesis .
  qed
qed

lemma process_lines_text:
  "process_lines s ls = Inr (out, s') \<Longrightarrow>
     current_line s' = (if ls = [] then current_line s else [])"
proof (induction ls arbitrary: s out s')
  case Nil
  then show ?case by simp
next
  case (Cons l ls)
  from Cons.prems obtain o1 s2 o2 where
    b: "process_lines (s2\<lparr>current_line := []\<rparr>) ls = Inr (o2, s')"
    by (auto simp: extend_Inr_iff)
  from Cons.IH [OF b] show ?case by simp
qed

lemma feed_state:
  assumes "feed s c = Inr (out, s1)"
  shows "buffer s1 = []"
    and "current_line s1 =
           (if tl (split_nl c) = [] then current_line s @ hd (split_nl c) else last (split_nl c))"
proof -
  obtain hb tb where B: "split_nl c = hb # tb"
    using split_nl_nonempty [of c] by (cases "split_nl c") auto
  from assms obtain o1 s0 where
    a: "process_lines s (butlast (split_nl c)) = Inr (o1, s0)" and
    b: "s1 = s0\<lparr>current_line := current_line s0 @ last (split_nl c), buffer := []\<rparr>"
    by (auto simp: feed_def extend_Inr_iff)
  from b show "buffer s1 = []" by simp
  from process_lines_text [OF a] b B
  show "current_line s1 =
           (if tl (split_nl c) = [] then current_line s @ hd (split_nl c) else last (split_nl c))"
    by (cases "tb = []") simp_all
qed

lemma last_split_append:
  "last (split_nl (p @ c)) =
     (if tl (split_nl c) = [] then last (split_nl p) @ hd (split_nl c) else last (split_nl c))"
proof -
  obtain hb tb where B: "split_nl c = hb # tb"
    using split_nl_nonempty [of c] by (cases "split_nl c") auto
  show ?thesis by (cases "tb = []") (simp_all add: split_nl_append B)
qed

lemma add_chunks_concat:
  assumes "buffer s = []" and "current_line s = last (split_nl p)" and "cs \<noteq> []"
    and "\<And>k. 0 < k \<Longrightarrow> k < length cs \<Longrightarrow> length (last (split_nl (p @ concat (take k cs)))) \<le> 80"
  shows "add_chunks s cs = add_chunk s (concat cs)"
  using assms
proof (induction cs arbitrary: s p)
  case Nil
  then show ?case by simp
next
  case (Cons c cs)
  show ?case
  proof (cases "cs = []")
    case True
    then show ?thesis by simp
  next
    case False
    have "length (last (split_nl (p @ concat (take 1 (c # cs))))) \<le> 80"
      using False by (intro Cons.prems(4)) simp_all
    then have k1: "length (last (split_nl (p @ c))) \<le> 80" by simp
    have st: "buffer s1 = [] \<and> current_line s1 = last (split_nl (p @ c))"
      if "feed s c = Inr (out, s1)" for out s1
      using feed_state [OF that] Cons.prems(2) by (simp add: last_split_append)
    have A: "extend (feed s c) force = feed s c"
    proof (cases "feed s c")
      case (Inl e)
      then show ?thesis by simp
    next
      case (Inr r)
      obtain out s1 where r: "r = (out, s1)" by (cases r)
      from st [of out s1] Inr r k1 have "force s1 = Inr ([], s1)" by (simp add: force_def)
      with Inr r show ?thesis by simp
    qed
    have B: "add_chunks s1 cs = extend (feed s1 (concat cs)) force"
      if f: "feed s c = Inr (out, s1)" for out s1
    proof -
      have "add_chunks s1 cs = add_chunk s1 (concat cs)"
      proof (rule Cons.IH [of s1 "p @ c"])
        show "buffer s1 = []" using st [OF f] by simp
        show "current_line s1 = last (split_nl (p @ c))" using st [OF f] by simp
        show "cs \<noteq> []" by (rule False)
        fix k assume "0 < k" and "k < length cs"
        then have "length (last (split_nl (p @ concat (take (Suc k) (c # cs))))) \<le> 80"
          by (intro Cons.prems(4)) simp_all
        then show "length (last (split_nl ((p @ c) @ concat (take k cs)))) \<le> 80" by simp
      qed
      with st [OF f] show ?thesis by (simp add: add_chunk_feed)
    qed
    have "add_chunks s (c # cs) = extend (feed s c) (\<lambda>s1. add_chunks s1 cs)"
      by (simp add: add_chunk_feed [OF Cons.prems(1)] A del: extend_simps)
    also have "\<dots> = extend (feed s c) (\<lambda>s1. extend (feed s1 (concat cs)) force)"
      by (rule extend_cong_result) (rule B)
    also have "\<dots> = extend (feed s (c @ concat cs)) force"
      by (simp add: feed_append extend_assoc del: extend_simps)
    also have "\<dots> = add_chunk s (concat (c # cs))"
      by (simp add: add_chunk_feed [OF Cons.prems(1)])
    finally show ?thesis .
  qed
qed

lemma render_concat:
  assumes "boundaries_short cs"
  shows "render cs = render [concat cs]"
proof (cases "cs = []")
  case True
  have "add_chunk init [] = Inr ([], init)"
    by (simp add: add_chunk_def process_buffer_def init_def)
  with True show ?thesis by (simp add: render_def)
next
  case False
  have "add_chunks init cs = add_chunk init (concat cs)"
  proof (rule add_chunks_concat [of init "[]" cs])
    show "buffer init = []" by (simp add: init_def)
    show "current_line init = last (split_nl [])" by (simp add: init_def)
    show "cs \<noteq> []" by (rule False)
    fix k assume "0 < k" and "k < length cs"
    with assms show "length (last (split_nl ([] @ concat (take k cs)))) \<le> 80"
      by (simp add: boundaries_short_def list_all_iff)
  qed
  then show ?thesis by (simp add: render_def)
qed

text \<open>
  C6 (chunk-boundary invariance), as the code has it. If no chunk but the last ends more
  than 80 characters into a line, the chunks give the same document (or the same
  exception) as the whole text fed as one chunk. The proof needs nothing about emphasis
  markers: without a forced dispatch inside a line, the same lines reach the classifier
  in the same states.
\<close>

theorem chunk_boundary_invariance:
  "boundaries_short cs \<Longrightarrow> document (render cs) = document (render [concat cs])"
  by (simp add: render_concat)

text \<open>
  C6, as stated, fails: a list item of 81 characters without any emphasis marker, cut
  after its 81st character, is dispatched by force; the rest of the line then arrives as
  a continuation line and is joined with a space that the single chunk does not have.
\<close>

theorem chunk_boundary_counterexample:
  "document (render [''- '' @ replicate 79 (CHR ''x''), ''y\<newline>'']) =
     Inr (''<ul><li>'' @ replicate 79 (CHR ''x'') @ '' y</li></ul>'')
   \<and> document (render [(''- '' @ replicate 79 (CHR ''x'')) @ ''y\<newline>'']) =
     Inr (''<ul><li>'' @ replicate 79 (CHR ''x'') @ ''y</li></ul>'')
   \<and> document (render [''- '' @ replicate 79 (CHR ''x''), ''y\<newline>'']) \<noteq>
     document (render [(''- '' @ replicate 79 (CHR ''x'')) @ ''y\<newline>''])
   \<and> CHR ''*'' \<notin> set ((''- '' @ replicate 79 (CHR ''x'')) @ ''y\<newline>'')"
  by code_simp

theorem chunk_boundary_invariance_witness:
  "boundaries_short [''- a\<newline>- '', ''b'', ''\<newline># T'']
   \<and> document (render [''- a\<newline>- '', ''b'', ''\<newline># T'']) =
     document (render [concat [''- a\<newline>- '', ''b'', ''\<newline># T'']])
   \<and> document (render [''- a\<newline>- '', ''b'', ''\<newline># T'']) = Inr ''<ul><li>a<li>b<h1>T</h1>''"
proof -
  have h: "boundaries_short [''- a\<newline>- '', ''b'', ''\<newline># T'']" by code_simp
  have d: "document (render [''- a\<newline>- '', ''b'', ''\<newline># T'']) = Inr ''<ul><li>a<li>b<h1>T</h1>''"
    by code_simp
  from chunk_boundary_invariance [OF h] h d show ?thesis by simp
qed

end
